theory Spec2Isabelle
  imports Complex_Main "HOL-Library.AList" "HOL-Library.FSet"
begin

section \<open>The PageRank estimators of pagerank.py\<close>

text \<open>
  The development embeds \<^verbatim>\<open>transition_model\<close>, \<^verbatim>\<open>sample_pagerank\<close> and
  \<^verbatim>\<open>iterate_pagerank\<close> of \<^verbatim>\<open>pagerank.py\<close>.

  \<^item> A Python \<^verbatim>\<open>dict\<close> keeps its keys in insertion order and holds each key once: it
    is an association list whose keys are distinct. \<^verbatim>\<open>d[k]\<close> raises \<^verbatim>\<open>KeyError\<close> for a
    missing key; \<^verbatim>\<open>d[k] = v\<close> overwrites in place or appends a new key at the end.
  \<^item> A Python \<^verbatim>\<open>set\<close> of page names is a finite set; \<^verbatim>\<open>len\<close> is its cardinality and
    its truth value is non-emptiness.
  \<^item> Python's \<^verbatim>\<open>float\<close> is modelled by \<^typ>\<open>real\<close>: the arithmetic is exact, rounding
    is not part of the model. \<^verbatim>\<open>/\<close> raises \<^verbatim>\<open>ZeroDivisionError\<close> on a zero divisor.
  \<^item> Every exception is a value: a computation returns \<open>Inl\<close> of the error or \<open>Inr\<close> of
    its result, and a sequence of statements stops at the first error.
\<close>

subsection \<open>Python values and errors\<close>

datatype error = KeyError | ZeroDivisionError | TypeError | IndexError | ValueError

type_synonym page = string

type_synonym 'v dict = "(page \<times> 'v) list"

type_synonym corpus = "page fset dict"

definition keys :: "'v dict \<Rightarrow> page list" where
  "keys d = map fst d"

definition getitem :: "'v dict \<Rightarrow> page \<Rightarrow> error + 'v" where
  "getitem d k = (case map_of d k of None \<Rightarrow> Inl KeyError | Some v \<Rightarrow> Inr v)"

definition setitem :: "'v dict \<Rightarrow> page \<Rightarrow> 'v \<Rightarrow> 'v dict" where
  "setitem d k v = AList.update k v d"

definition py_div :: "real \<Rightarrow> real \<Rightarrow> error + real" where
  "py_div a b = (if b = 0 then Inl ZeroDivisionError else Inr (a / b))"

text \<open>Sequencing: the second computation runs on the result of the first unless it raised.\<close>

definition and_then :: "error + 'a \<Rightarrow> ('a \<Rightarrow> error + 'b) \<Rightarrow> error + 'b" where
  "and_then m f = (case m of Inl e \<Rightarrow> Inl e | Inr v \<Rightarrow> f v)"

text \<open>
  A \<^verbatim>\<open>for x in xs:\<close> loop over a sequence that the body does not resize: the body is run
  for each element in turn on the state left by the previous one.
\<close>

fun for_each :: "'a list \<Rightarrow> ('a \<Rightarrow> 's \<Rightarrow> error + 's) \<Rightarrow> 's \<Rightarrow> error + 's" where
  "for_each [] body s = Inr s"
| "for_each (x # xs) body s =
     (case body x s of Inl e \<Rightarrow> Inl e | Inr s' \<Rightarrow> for_each xs body s')"

subsection \<open>The graph: crawl (lines 25-49)\<close>

text \<open>
  Listing the directory, reading the files and matching the link pattern are outside the
  model: \<open>found\<close> holds the names of the \<^verbatim>\<open>.html\<close> files in the order of the listing,
  each with the link targets matched in its contents. Line 40 stores the links of a
  file without the file's own name:
  \<^verbatim>\<open>pages[filename] = set(links) - {filename}\<close>.
\<close>

definition parse_step :: "page \<times> page list \<Rightarrow> corpus \<Rightarrow> error + corpus" where
  "parse_step = (\<lambda>(filename, links) pages.
     Inr (setitem pages filename (fset_of_list links |-| {|filename|})))"

text \<open>
  Lines 43-47 keep the links that are pages of the corpus:
  \<^verbatim>\<open>
  for filename in pages:
      pages[filename] = set(link for link in pages[filename] if link in pages)
  \<close>
\<close>

definition filter_step :: "page \<Rightarrow> corpus \<Rightarrow> error + corpus" where
  "filter_step filename pages =
     and_then (getitem pages filename) (\<lambda>links.
       Inr (setitem pages filename (ffilter (\<lambda>link. link \<in> set (keys pages)) links)))"

definition crawl :: "(page \<times> page list) list \<Rightarrow> error + corpus" where
  "crawl found =
     and_then (for_each found parse_step []) (\<lambda>pages.
       for_each (keys pages) filter_step pages)"

text \<open>
  What the estimators rely on in the corpus they receive: it is a dictionary (each key
  once) and every link of a page is a key. \<^verbatim>\<open>crawl\<close> also removes self-links.
\<close>

definition graph_ok :: "corpus \<Rightarrow> bool" where
  "graph_ok corpus \<longleftrightarrow>
     distinct (keys corpus) \<and>
     list_all (\<lambda>(p, links). links |\<subseteq>| fset_of_list (keys corpus)) corpus"

definition no_self_links :: "corpus \<Rightarrow> bool" where
  "no_self_links pages = list_all (\<lambda>(p, links). p |\<notin>| links) pages"

subsection \<open>transition\_model (lines 52-76)\<close>

text \<open>
  \<^verbatim>\<open>
  for i in corpus:
      dist[i] = (1-damping_factor)/n
      if i in corpus[page]:
          dist[i] += damping_factor/len(corpus[page])
  \<close>
\<close>

definition linked_step :: "corpus \<Rightarrow> page \<Rightarrow> real \<Rightarrow> nat \<Rightarrow> page \<Rightarrow> real dict \<Rightarrow> error + real dict" where
  "linked_step corpus page damping_factor n i dist0 =
     and_then (py_div (1 - damping_factor) (real n)) (\<lambda>base.
       let dist1 = setitem dist0 i base in
       and_then (getitem corpus page) (\<lambda>links.
         if i |\<in>| links
         then and_then (getitem dist1 i) (\<lambda>cur.
              and_then (py_div damping_factor (real (fcard links))) (\<lambda>extra.
                Inr (setitem dist1 i (cur + extra))))
         else Inr dist1))"

text \<open>
  \<^verbatim>\<open>
  for i in corpus:
      dist[i] = 1/n
  \<close>
\<close>

definition dangling_step :: "nat \<Rightarrow> page \<Rightarrow> real dict \<Rightarrow> error + real dict" where
  "dangling_step n i dist0 = and_then (py_div 1 (real n)) (\<lambda>q. Inr (setitem dist0 i q))"

text \<open>
  The lookup \<^verbatim>\<open>corpus[page]\<close> of line 64 is the first statement that can raise; its
  truth value selects the loop.
\<close>

definition transition_model :: "corpus \<Rightarrow> page \<Rightarrow> real \<Rightarrow> error + real dict" where
  "transition_model corpus page damping_factor =
     (let dist0 = []; n = length corpus in
      and_then (getitem corpus page) (\<lambda>links.
        if links \<noteq> {||}
        then for_each (keys corpus) (linked_step corpus page damping_factor n) dist0
        else for_each (keys corpus) (dangling_step n) dist0))"

subsection \<open>iterate\_pagerank (lines 112-149)\<close>

text \<open>
  The function works on two dictionaries, created by separate \<^verbatim>\<open>dict()\<close> calls, and on
  the flag \<^verbatim>\<open>condition\<close>.
\<close>

record iter_state =
  rank :: "real dict"
  newRank :: "real dict"
  condition :: bool

text \<open>Lines 124-125: \<^verbatim>\<open>for i in corpus: rank[i] = 1/len(corpus)\<close>.\<close>

definition init_step :: "corpus \<Rightarrow> page \<Rightarrow> real dict \<Rightarrow> error + real dict" where
  "init_step corpus i r =
     and_then (py_div 1 (real (length corpus))) (\<lambda>q. Inr (setitem r i q))"

text \<open>
  Lines 133-137, the body of the inner loop, on the accumulator \<^verbatim>\<open>number\<close>:
  \<^verbatim>\<open>
  if i in corpus[linkedPage]:
      number += rank[linkedPage]/len(corpus[linkedPage])
  if not corpus[linkedPage]:
      number += rank[linkedPage]/len(corpus)
  \<close>
\<close>

definition link_step :: "corpus \<Rightarrow> real dict \<Rightarrow> page \<Rightarrow> page \<Rightarrow> real \<Rightarrow> error + real" where
  "link_step corpus r i linkedPage number =
     and_then (getitem corpus linkedPage) (\<lambda>links.
     and_then
       (if i |\<in>| links
        then and_then (getitem r linkedPage) (\<lambda>x.
             and_then (py_div x (real (fcard links))) (\<lambda>q. Inr (number + q)))
        else Inr number) (\<lambda>number1.
     and_then (getitem corpus linkedPage) (\<lambda>links'.
       if links' = {||}
       then and_then (getitem r linkedPage) (\<lambda>x.
            and_then (py_div x (real (length corpus))) (\<lambda>q. Inr (number1 + q)))
       else Inr number1)))"

text \<open>
  Lines 131-139, the body of \<^verbatim>\<open>for i in rank\<close>: it reads \<^verbatim>\<open>rank\<close> and writes
  \<^verbatim>\<open>newRank[i]\<close>.
\<close>

definition page_step :: "corpus \<Rightarrow> real \<Rightarrow> page \<Rightarrow> iter_state \<Rightarrow> error + iter_state" where
  "page_step corpus damping_factor i s =
     and_then (for_each (keys corpus) (link_step corpus (rank s) i) 0) (\<lambda>number.
     and_then (py_div (1 - damping_factor) (real (length corpus))) (\<lambda>base.
       Inr (s\<lparr>newRank := setitem (newRank s) i (base + damping_factor * number)\<rparr>)))"

text \<open>Lines 130-139: one update pass, \<^verbatim>\<open>for i in rank: ...\<close>.\<close>

definition update_pass :: "corpus \<Rightarrow> real \<Rightarrow> iter_state \<Rightarrow> error + iter_state" where
  "update_pass corpus damping_factor s = for_each (keys (rank s)) (page_step corpus damping_factor) s"

text \<open>
  Lines 129-141: \<^verbatim>\<open>while condition:\<close> runs the update pass and then the assignment
  \<^verbatim>\<open>condition = False\<close> of line 141, which is the last statement of the loop body.
\<close>

function while_loop :: "corpus \<Rightarrow> real \<Rightarrow> iter_state \<Rightarrow> error + iter_state" where
  "while_loop corpus damping_factor s =
     (if condition s
      then (case update_pass corpus damping_factor s of
              Inl e \<Rightarrow> Inl e
            | Inr s' \<Rightarrow> while_loop corpus damping_factor (s'\<lparr>condition := False\<rparr>))
      else Inr s)"
  by pat_completeness auto
termination
  by (relation "measure (\<lambda>(corpus, damping_factor, s). if condition s then 1 else 0)") auto

declare while_loop.simps [simp del]

text \<open>
  \<^verbatim>\<open>math.isclose(a, b, abs_tol=0.001)\<close> with the default \<^verbatim>\<open>rel_tol=1e-09\<close>, on finite
  values.
\<close>

definition isclose :: "real \<Rightarrow> real \<Rightarrow> bool" where
  "isclose a b \<longleftrightarrow>
     a = b \<or> \<bar>b - a\<bar> \<le> \<bar>(1 / 10 ^ 9) * b\<bar> \<or> \<bar>b - a\<bar> \<le> \<bar>(1 / 10 ^ 9) * a\<bar> \<or> \<bar>b - a\<bar> \<le> 1 / 1000"

text \<open>
  Lines 143-147, after the \<^verbatim>\<open>while\<close> loop has ended:
  \<^verbatim>\<open>
  for i in rank:
      if not math.isclose(newRank[i], rank[i], abs_tol=0.001):
          condition = True
      rank[i] = newRank[i]
  \<close>
\<close>

definition check_step :: "page \<Rightarrow> iter_state \<Rightarrow> error + iter_state" where
  "check_step i s =
     and_then (getitem (newRank s) i) (\<lambda>new.
     and_then (getitem (rank s) i) (\<lambda>old.
       let s1 = (if \<not> isclose new old then s\<lparr>condition := True\<rparr> else s) in
       and_then (getitem (newRank s1) i) (\<lambda>v.
         Inr (s1\<lparr>rank := setitem (rank s1) i v\<rparr>))))"

definition iterate_pagerank :: "corpus \<Rightarrow> real \<Rightarrow> error + real dict" where
  "iterate_pagerank corpus damping_factor =
     and_then (for_each (keys corpus) (init_step corpus) []) (\<lambda>rank0.
     and_then (while_loop corpus damping_factor \<lparr>rank = rank0, newRank = [], condition = True\<rparr>) (\<lambda>s.
     and_then (for_each (keys (rank s)) check_step s) (\<lambda>s'.
       Inr (rank s'))))"

subsection \<open>sample\_pagerank (lines 78-110)\<close>

text \<open>
  The generator of the \<^verbatim>\<open>random\<close> module is the sequence of numbers it is going to
  produce. \<^verbatim>\<open>random.choice(seq)\<close> of the standard library has the single parameter
  \<^verbatim>\<open>seq\<close>: a call that passes a keyword argument is rejected with \<^verbatim>\<open>TypeError\<close> when
  the arguments are bound, before anything is drawn; on an empty sequence the function
  raises \<^verbatim>\<open>IndexError\<close>; otherwise it returns the element at the index drawn.
  \<open>kwargs\<close> are the names of the keyword arguments of the call.
\<close>

type_synonym rng = "nat \<Rightarrow> nat"

definition random_choice :: "rng \<Rightarrow> 'a list \<Rightarrow> string list \<Rightarrow> error + ('a \<times> rng)" where
  "random_choice g seq kwargs =
     (if kwargs \<noteq> [] then Inl TypeError
      else if seq = [] then Inl IndexError
      else Inr (seq ! (g 0 mod length seq), \<lambda>k. g (Suc k)))"

text \<open>\<^verbatim>\<open>x[0]\<close> on a string: its first character, \<^verbatim>\<open>IndexError\<close> on the empty string.\<close>

definition subscript0 :: "string \<Rightarrow> error + string" where
  "subscript0 x = (case x of [] \<Rightarrow> Inl IndexError | c # _ \<Rightarrow> Inr [c])"

record sample_state =
  visits :: "int dict"
  temp :: "page option"
  gen :: rng

text \<open>Lines 92-93: \<^verbatim>\<open>for i in corpus: rank[i] = 0\<close>; the dictionary is the field \<open>visits\<close>.\<close>

definition zero_step :: "page \<Rightarrow> int dict \<Rightarrow> error + int dict" where
  "zero_step i r = Inr (setitem r i 0)"

text \<open>
  Lines 96-101 choose the next page:
  \<^verbatim>\<open>
  if temp is None:
      temp = random.choice(list(corpus.keys()), k=0)[0]
  else:
      model = transition_model(corpus, temp, damping_factor)
      pop, weight = zip(*model.items())
      temp = random.choice(pop, weight = weight, k=1)[0]
  \<close>
  Unpacking \<^verbatim>\<open>zip(*model.items())\<close> into two names raises \<^verbatim>\<open>ValueError\<close> when the
  model has no items.
\<close>

definition choose_page :: "corpus \<Rightarrow> real \<Rightarrow> sample_state \<Rightarrow> error + sample_state" where
  "choose_page corpus damping_factor s =
     (case temp s of
        None \<Rightarrow>
          and_then (random_choice (gen s) (keys corpus) [''k'']) (\<lambda>(x, g).
          and_then (subscript0 x) (\<lambda>t.
            Inr (s\<lparr>temp := Some t, gen := g\<rparr>)))
      | Some cur \<Rightarrow>
          and_then (transition_model corpus cur damping_factor) (\<lambda>model.
          and_then (if model = [] then Inl ValueError else Inr (map fst model, map snd model))
            (\<lambda>(pop, weight).
          and_then (random_choice (gen s) pop [''weight'', ''k'']) (\<lambda>(x, g).
          and_then (subscript0 x) (\<lambda>t.
            Inr (s\<lparr>temp := Some t, gen := g\<rparr>))))))"

text \<open>Lines 96-103, the body of \<^verbatim>\<open>for i in range(n)\<close>, ending with \<^verbatim>\<open>rank[temp] += 1\<close>.\<close>

definition sample_step :: "corpus \<Rightarrow> real \<Rightarrow> nat \<Rightarrow> sample_state \<Rightarrow> error + sample_state" where
  "sample_step corpus damping_factor i s =
     and_then (choose_page corpus damping_factor s) (\<lambda>s1.
       case temp s1 of
         None \<Rightarrow> Inl KeyError
       | Some t \<Rightarrow>
           and_then (getitem (visits s1) t) (\<lambda>c.
             Inr (s1\<lparr>visits := setitem (visits s1) t (c + 1)\<rparr>)))"

text \<open>
  Lines 105-108: \<^verbatim>\<open>finalRank = 0\<close>, then \<^verbatim>\<open>for i in corpus: finalRank = rank/n\<close>.
  \<^verbatim>\<open>rank\<close> is the dictionary itself and \<^verbatim>\<open>dict / int\<close> is no operation of Python: the
  statement raises \<^verbatim>\<open>TypeError\<close> whenever it is reached.
\<close>

definition final_step :: "int dict \<Rightarrow> int \<Rightarrow> page \<Rightarrow> int \<Rightarrow> error + int" where
  "final_step r n i finalRank = Inl TypeError"

text \<open>
  The value returned is \<^verbatim>\<open>finalRank\<close>: the integer of line 105, since line 108 never
  assigns. \<^verbatim>\<open>range(n)\<close> is empty for \<open>n \<le> 0\<close>.
\<close>

definition sample_pagerank :: "rng \<Rightarrow> corpus \<Rightarrow> real \<Rightarrow> int \<Rightarrow> error + int" where
  "sample_pagerank g corpus damping_factor n =
     and_then (for_each (keys corpus) zero_step []) (\<lambda>rank0.
     and_then (for_each [0 ..< nat n] (sample_step corpus damping_factor)
                 \<lparr>visits = rank0, temp = None, gen = g\<rparr>) (\<lambda>s.
     for_each (keys corpus) (final_step (visits s) n) 0))"

subsection \<open>Closed forms of the loops\<close>

text \<open>
  The probability that \<^verbatim>\<open>transition_model\<close> stores for page \<open>i\<close>: lines 66-69 when the
  current page has links, line 74 when it has none.
\<close>

definition next_prob :: "nat \<Rightarrow> page fset \<Rightarrow> real \<Rightarrow> page \<Rightarrow> real" where
  "next_prob n links d i =
     (if links \<noteq> {||}
      then (if i |\<in>| links then (1 - d) / real n + d / real (fcard links) else (1 - d) / real n)
      else 1 / real n)"

text \<open>
  The value a rank dictionary holds for a page, as a function (0 for a missing key, which
  no lookup of the program reaches).
\<close>

definition snapshot :: "real dict \<Rightarrow> page \<Rightarrow> real" where
  "snapshot r k = (case map_of r k of None \<Rightarrow> 0 | Some v \<Rightarrow> v)"

text \<open>
  What one iteration of the inner loop (lines 133-137) adds to \<^verbatim>\<open>number\<close>, for the item
  \<open>(linkedPage, links)\<close> of the corpus.
\<close>

definition link_share :: "corpus \<Rightarrow> (page \<Rightarrow> real) \<Rightarrow> page \<Rightarrow> page \<times> page fset \<Rightarrow> real" where
  "link_share corpus \<rho> i = (\<lambda>(linkedPage, links).
     (if i |\<in>| links then \<rho> linkedPage / real (fcard links) else 0) +
     (if links = {||} then \<rho> linkedPage / real (length corpus) else 0))"

text \<open>
  The same amount, for a key of the corpus.
\<close>

definition share_of :: "corpus \<Rightarrow> (page \<Rightarrow> real) \<Rightarrow> page \<Rightarrow> page \<Rightarrow> real" where
  "share_of corpus \<rho> i linkedPage =
     (case map_of corpus linkedPage of
        None \<Rightarrow> 0
      | Some links \<Rightarrow> link_share corpus \<rho> i (linkedPage, links))"

text \<open>
  The value line 139 stores in \<^verbatim>\<open>newRank[i]\<close> when the ranks read are \<open>\<rho>\<close>.
\<close>

definition new_rank :: "corpus \<Rightarrow> real \<Rightarrow> (page \<Rightarrow> real) \<Rightarrow> page \<Rightarrow> real" where
  "new_rank corpus d \<rho> i =
     (1 - d) / real (length corpus) + d * sum_list (map (link_share corpus \<rho> i) corpus)"

text \<open>
  The effect of lines 144-147 on the state, for one page.
\<close>

definition check_update :: "page \<Rightarrow> iter_state \<Rightarrow> iter_state" where
  "check_update i t =
     t\<lparr>condition := (\<not> isclose (snapshot (newRank t) i) (snapshot (rank t) i)) \<or> condition t,
       rank := setitem (rank t) i (snapshot (newRank t) i)\<rparr>"

text \<open>
  The update rule in the words of the specification, on a rank snapshot \<open>\<rho>\<close>:
  \<^verbatim>\<open>newRank[i] = (1-d)/N + d * SUM_{j links to i} rank[j]/out-degree(j) + d * SUM_{j dangling} rank[j]/N\<close>.
\<close>

definition simultaneous_update :: "corpus \<Rightarrow> real \<Rightarrow> (page \<Rightarrow> real) \<Rightarrow> page \<Rightarrow> real" where
  "simultaneous_update corpus d \<rho> i =
     (1 - d) / real (length corpus)
     + d * sum_list (map (\<lambda>(j, links). \<rho> j / real (fcard links))
                       (filter (\<lambda>(j, links). i |\<in>| links) corpus))
     + d * sum_list (map (\<lambda>(j, links). \<rho> j / real (length corpus))
                       (filter (\<lambda>(j, links). links = {||}) corpus))"

text \<open>
  The progress of the loop of lines 43-47: the pages in \<open>ks\<close> have been filtered, their
  links are among \<open>allowed\<close>.
\<close>

definition links_in :: "page list \<Rightarrow> page list \<Rightarrow> corpus \<Rightarrow> bool" where
  "links_in ks allowed pages =
     list_all (\<lambda>(p, links). p \<in> set ks \<longrightarrow> links |\<subseteq>| fset_of_list allowed) pages"

subsection \<open>Example graphs\<close>

text \<open>Two pages that link to each other; and a page linking to a page without links.\<close>

definition two_pages :: corpus where
  "two_pages = [(''A'', {|''B''|}), (''B'', {|''A''|})]"

definition dangling_pair :: corpus where
  "dangling_pair = [(''A'', {|''B''|}), (''B'', {||})]"

text \<open>A generator that always draws 0.\<close>

definition fixed_gen :: rng where
  "fixed_gen k = 0"

section \<open>Properties\<close>

subsection \<open>Loops and dictionaries\<close>

lemma for_each_fold:
  assumes "\<And>x t. x \<in> set xs \<Longrightarrow> I t \<Longrightarrow> body x t = Inr (f x t) \<and> I (f x t)" and "I s"
  shows "for_each xs body s = Inr (fold f xs s) \<and> I (fold f xs s)"
  using assms
proof (induction xs arbitrary: s)
  case Nil
  then show ?case by simp
next
  case (Cons x xs)
  from Cons.prems have step: "body x s = Inr (f x s)" "I (f x s)" by simp_all
  have "for_each xs body (f x s) = Inr (fold f xs (f x s)) \<and> I (fold f xs (f x s))"
    by (rule Cons.IH) (use Cons.prems step in auto)
  with step show ?case by simp
qed

lemma for_each_fold_plain:
  assumes "\<And>x t. x \<in> set xs \<Longrightarrow> body x t = Inr (f x t)"
  shows "for_each xs body s = Inr (fold f xs s)"
  using for_each_fold [where I = "\<lambda>_. True" and body = body and f = f and xs = xs and s = s] assms
  by simp

lemma getitem_setitem_same: "getitem (setitem r k v) k = Inr v"
  by (simp add: getitem_def setitem_def update_conv')

lemma setitem_twice: "setitem (setitem r k v) k w = setitem r k w"
  by (simp add: setitem_def)

lemma setitem_fresh: "k \<notin> set (keys r) \<Longrightarrow> setitem r k v = r @ [(k, v)]"
  unfolding setitem_def keys_def by (induction r) auto

lemma fold_setitem_fresh:
  "distinct ks \<Longrightarrow> set ks \<inter> set (keys r) = {} \<Longrightarrow>
   fold (\<lambda>i r. setitem r i (f i)) ks r = r @ map (\<lambda>i. (i, f i)) ks"
proof (induction ks arbitrary: r)
  case Nil
  then show ?case by simp
next
  case (Cons k ks)
  then have fresh: "k \<notin> set (keys r)" by auto
  have "set ks \<inter> set (keys (r @ [(k, f k)])) = {}"
    using Cons.prems by (auto simp: keys_def)
  with Cons show ?case by (simp add: setitem_fresh [OF fresh])
qed

lemma map_of_fold_setitem:
  "map_of (fold (\<lambda>i r. setitem r i (f i)) ks r) k = (if k \<in> set ks then Some (f k) else map_of r k)"
  by (induction ks arbitrary: r rule: rev_induct) (auto simp: setitem_def update_conv')

lemma getitem_no_key:
  assumes "k \<notin> set (keys d)"
  shows "getitem d k = Inl KeyError"
proof -
  have "map_of d k = None" using assms by (simp add: map_of_eq_None_iff keys_def)
  then show ?thesis by (simp add: getitem_def)
qed

lemma getitem_Inr_iff: "getitem d k = Inr v \<longleftrightarrow> map_of d k = Some v"
  by (simp add: getitem_def split: option.splits)

lemma linked_step_eq:
  assumes "n \<noteq> 0" "getitem corpus page = Inr links" "links \<noteq> {||}"
  shows "linked_step corpus page d n i r = Inr (setitem r i (next_prob n links d i))"
  using assms
  by (simp add: linked_step_def and_then_def py_div_def getitem_setitem_same setitem_twice next_prob_def)

lemma dangling_step_eq:
  assumes "n \<noteq> 0"
  shows "dangling_step n i r = Inr (setitem r i (next_prob n {||} d i))"
  using assms by (simp add: dangling_step_def and_then_def py_div_def next_prob_def)

lemma transition_model_eq:
  assumes dk: "distinct (keys corpus)" and pg: "map_of corpus page = Some links"
  shows "transition_model corpus page d =
         Inr (map (\<lambda>i. (i, next_prob (length corpus) links d i)) (keys corpus))"
proof -
  have g: "getitem corpus page = Inr links" using pg by (simp add: getitem_Inr_iff)
  have n: "length corpus \<noteq> 0" using pg by auto
  show ?thesis
  proof (cases "links = {||}")
    case True
    have "for_each (keys corpus) (dangling_step (length corpus)) [] =
          Inr (fold (\<lambda>i r. setitem r i (next_prob (length corpus) {||} d i)) (keys corpus) [])"
      by (rule for_each_fold_plain) (rule dangling_step_eq [OF n])
    with True g dk show ?thesis
      by (simp add: transition_model_def and_then_def fold_setitem_fresh keys_def)
  next
    case False
    have "for_each (keys corpus) (linked_step corpus page d (length corpus)) [] =
          Inr (fold (\<lambda>i r. setitem r i (next_prob (length corpus) links d i)) (keys corpus) [])"
      by (rule for_each_fold_plain) (rule linked_step_eq [OF n g False])
    with False g dk show ?thesis
      by (simp add: transition_model_def and_then_def fold_setitem_fresh keys_def)
  qed
qed

lemma transition_model_KeyError:
  "page \<notin> set (keys corpus) \<Longrightarrow> transition_model corpus page d = Inl KeyError"
  by (simp add: transition_model_def and_then_def getitem_no_key)

lemma link_step_eq:
  assumes ck: "linkedPage \<in> set (keys corpus)" and rk: "linkedPage \<in> set (keys r)"
  shows "link_step corpus r i linkedPage number =
         Inr (number + share_of corpus (snapshot r) i linkedPage)"
proof -
  obtain links where l: "map_of corpus linkedPage = Some links"
    using ck by (auto simp: keys_def dest: weak_map_of_SomeI)
  then have g: "getitem corpus linkedPage = Inr links" by (simp add: getitem_def)
  obtain v where v: "map_of r linkedPage = Some v"
    using rk by (auto simp: keys_def dest: weak_map_of_SomeI)
  then have gr: "getitem r linkedPage = Inr v" "snapshot r linkedPage = v"
    by (simp_all add: getitem_def snapshot_def)
  have n: "length corpus \<noteq> 0" using ck by (auto simp: keys_def)
  show ?thesis
    using n by (simp add: link_step_def and_then_def g gr py_div_def link_share_def share_of_def l)
qed

lemma fold_add: "fold (\<lambda>x (a::real). a + c x) xs a = a + sum_list (map c xs)"
  by (induction xs arbitrary: a) simp_all

lemma share_of_keys:
  assumes "distinct (keys corpus)"
  shows "map (share_of corpus \<rho> i) (keys corpus) = map (link_share corpus \<rho> i) corpus"
proof -
  have "share_of corpus \<rho> i (fst e) = link_share corpus \<rho> i e" if "e \<in> set corpus" for e
  proof -
    obtain k links where e: "e = (k, links)" by (cases e)
    with that assms have "map_of corpus k = Some links" by (simp add: keys_def)
    with e show ?thesis by (simp add: share_of_def)
  qed
  then show ?thesis by (simp add: keys_def)
qed

lemma number_eq:
  assumes dk: "distinct (keys corpus)" and sub: "set (keys corpus) \<subseteq> set (keys r)"
  shows "for_each (keys corpus) (link_step corpus r i) 0 =
         Inr (sum_list (map (link_share corpus (snapshot r) i) corpus))"
proof -
  have "for_each (keys corpus) (link_step corpus r i) 0 =
        Inr (fold (\<lambda>linkedPage number. number + share_of corpus (snapshot r) i linkedPage)
               (keys corpus) 0)"
    by (rule for_each_fold_plain) (rule link_step_eq, use sub in auto)
  then show ?thesis by (simp add: fold_add share_of_keys [OF dk])
qed

lemma page_step_eq:
  assumes dk: "distinct (keys corpus)" and sub: "set (keys corpus) \<subseteq> set (keys (rank t))"
    and ne: "corpus \<noteq> []"
  shows "page_step corpus d i t =
         Inr (t\<lparr>newRank := setitem (newRank t) i (new_rank corpus d (snapshot (rank t)) i)\<rparr>)"
  using ne by (simp add: page_step_def number_eq [OF dk sub] and_then_def py_div_def new_rank_def)

lemma fold_newRank:
  "fold (\<lambda>i t. t\<lparr>newRank := setitem (newRank t) i (F i)\<rparr>) ks s =
   s\<lparr>newRank := fold (\<lambda>i r. setitem r i (F i)) ks (newRank s)\<rparr>"
  by (induction ks arbitrary: s) simp_all

lemma update_pass_eq:
  assumes dk: "distinct (keys corpus)" and sub: "set (keys corpus) = set (keys (rank s))"
  shows "update_pass corpus d s =
         Inr (s\<lparr>newRank := fold (\<lambda>i r. setitem r i (new_rank corpus d (snapshot (rank s)) i))
                              (keys (rank s)) (newRank s)\<rparr>)"
proof -
  let ?f = "\<lambda>i t. t\<lparr>newRank := setitem (newRank t) i (new_rank corpus d (snapshot (rank s)) i)\<rparr>"
  have "for_each (keys (rank s)) (page_step corpus d) s = Inr (fold ?f (keys (rank s)) s)
        \<and> rank (fold ?f (keys (rank s)) s) = rank s"
  proof (rule for_each_fold [where I = "\<lambda>t. rank t = rank s"])
    fix i and t :: iter_state
    assume i: "i \<in> set (keys (rank s))" and t: "rank t = rank s"
    from i sub have "corpus \<noteq> []" by (auto simp: keys_def)
    with dk sub t show "page_step corpus d i t = Inr (?f i t) \<and> rank (?f i t) = rank s"
      by (simp add: page_step_eq)
  qed simp
  then show ?thesis by (simp add: update_pass_def fold_newRank)
qed

lemma while_loop_once:
  assumes "condition s"
  shows "while_loop corpus d s =
         (case update_pass corpus d s of Inl e \<Rightarrow> Inl e | Inr s' \<Rightarrow> Inr (s'\<lparr>condition := False\<rparr>))"
proof (cases "update_pass corpus d s")
  case (Inl e)
  with assms show ?thesis by (subst while_loop.simps) simp
next
  case (Inr s')
  have "while_loop corpus d (s'\<lparr>condition := False\<rparr>) = Inr (s'\<lparr>condition := False\<rparr>)"
    by (subst while_loop.simps) simp
  with assms Inr show ?thesis by (subst while_loop.simps) simp
qed

lemma keys_setitem_present: "k \<in> set (keys r) \<Longrightarrow> keys (setitem r k v) = keys r"
  by (simp add: keys_def setitem_def update_keys)

lemma keys_fold_setitem:
  "set ks \<subseteq> set (keys r) \<Longrightarrow> keys (fold (\<lambda>i r. setitem r i (g i)) ks r) = keys r"
  by (induction ks arbitrary: r) (simp_all add: keys_setitem_present)

lemma dict_by_values:
  assumes "\<And>k v. (k, v) \<in> set r \<Longrightarrow> v = g k"
  shows "r = map (\<lambda>i. (i, g i)) (keys r)"
  using assms unfolding keys_def by (induction r) auto

lemma fold_setitem_own_keys:
  assumes "distinct (keys r)"
  shows "fold (\<lambda>i r. setitem r i (g i)) (keys r) r = map (\<lambda>i. (i, g i)) (keys r)"
proof -
  let ?r' = "fold (\<lambda>i r. setitem r i (g i)) (keys r) r"
  have k: "keys ?r' = keys r" by (rule keys_fold_setitem) simp
  have "v = g k" if "(k, v) \<in> set ?r'" for k v
  proof -
    from that have "k \<in> set (keys ?r')" unfolding keys_def by force
    with k have kk: "k \<in> set (keys r)" by simp
    from that assms k have "map_of ?r' k = Some v" by (simp add: keys_def)
    with kk show ?thesis by (simp add: map_of_fold_setitem)
  qed
  then have "?r' = map (\<lambda>i. (i, g i)) (keys ?r')" by (rule dict_by_values)
  with k show ?thesis by simp
qed

lemma getitem_snapshot: "k \<in> set (keys r) \<Longrightarrow> getitem r k = Inr (snapshot r k)"
proof -
  assume "k \<in> set (keys r)"
  then obtain v where "map_of r k = Some v"
    by (auto simp: keys_def dest: weak_map_of_SomeI)
  then show ?thesis by (simp add: getitem_def snapshot_def)
qed

lemma check_step_eq:
  assumes "i \<in> set (keys (newRank t))" "i \<in> set (keys (rank t))"
  shows "check_step i t = Inr (check_update i t)"
  using assms
  by (simp add: check_step_def and_then_def getitem_snapshot check_update_def Let_def)

lemma fold_check_update:
  "rank (fold check_update ks t) = fold (\<lambda>i r. setitem r i (snapshot (newRank t) i)) ks (rank t)
   \<and> newRank (fold check_update ks t) = newRank t"
  by (induction ks arbitrary: t) (simp_all add: check_update_def)

lemma check_loop_eq:
  assumes dk: "distinct (keys (rank s))" and sub: "set (keys (rank s)) \<subseteq> set (keys (newRank s))"
  shows "\<exists>s'. for_each (keys (rank s)) check_step s = Inr s' \<and>
              rank s' = map (\<lambda>i. (i, snapshot (newRank s) i)) (keys (rank s))"
proof -
  have "for_each (keys (rank s)) check_step s = Inr (fold check_update (keys (rank s)) s)
        \<and> (newRank (fold check_update (keys (rank s)) s) = newRank s
           \<and> keys (rank (fold check_update (keys (rank s)) s)) = keys (rank s))"
  proof (rule for_each_fold [where I = "\<lambda>t. newRank t = newRank s \<and> keys (rank t) = keys (rank s)"])
    fix i and t :: iter_state
    assume i: "i \<in> set (keys (rank s))"
      and t: "newRank t = newRank s \<and> keys (rank t) = keys (rank s)"
    with sub have "check_step i t = Inr (check_update i t)"
      by (intro check_step_eq) auto
    moreover have "newRank (check_update i t) = newRank s" using t by (simp add: check_update_def)
    moreover have "keys (rank (check_update i t)) = keys (rank s)"
      using t i by (simp add: check_update_def keys_setitem_present)
    ultimately show "check_step i t = Inr (check_update i t) \<and>
      newRank (check_update i t) = newRank s \<and> keys (rank (check_update i t)) = keys (rank s)"
      by simp
  qed simp
  then show ?thesis
    by (simp add: fold_check_update fold_setitem_own_keys [OF dk])
qed

lemma init_loop_eq:
  assumes "distinct (keys corpus)"
  shows "for_each (keys corpus) (init_step corpus) [] =
         Inr (map (\<lambda>i. (i, 1 / real (length corpus))) (keys corpus))"
proof -
  have "for_each (keys corpus) (init_step corpus) [] =
        Inr (fold (\<lambda>i r. setitem r i (1 / real (length corpus))) (keys corpus) [])"
  proof (rule for_each_fold_plain)
    fix x and t :: "real dict"
    assume "x \<in> set (keys corpus)"
    then have "length corpus \<noteq> 0" by (auto simp: keys_def)
    then show "init_step corpus x t = Inr (setitem t x (1 / real (length corpus)))"
      by (simp add: init_step_def and_then_def py_div_def)
  qed
  with assms show ?thesis by (simp add: fold_setitem_fresh keys_def)
qed

lemma keys_map_pair: "keys (map (\<lambda>i. (i, g i)) ks) = ks"
  by (simp add: keys_def comp_def)

lemma snapshot_map_pair: "k \<in> set ks \<Longrightarrow> snapshot (map (\<lambda>i. (i, g i)) ks) k = g k"
  by (simp add: snapshot_def map_of_map_restrict)

lemma new_rank_cong:
  assumes "\<And>k. k \<in> set (keys corpus) \<Longrightarrow> \<rho> k = \<rho>' k"
  shows "new_rank corpus d \<rho> i = new_rank corpus d \<rho>' i"
proof -
  have "link_share corpus \<rho> i e = link_share corpus \<rho>' i e" if "e \<in> set corpus" for e
  proof -
    obtain k links where e: "e = (k, links)" by (cases e)
    with that have "k \<in> set (keys corpus)" unfolding keys_def by force
    then have "\<rho> k = \<rho>' k" by (rule assms)
    with e show ?thesis by (simp add: link_share_def)
  qed
  then have "map (link_share corpus \<rho> i) corpus = map (link_share corpus \<rho>' i) corpus"
    by simp
  then show ?thesis unfolding new_rank_def by (simp only:)
qed

lemma update_pass_dict:
  assumes dk: "distinct (keys corpus)"
  shows "update_pass corpus d \<lparr>rank = map (\<lambda>i. (i, \<rho> i)) (keys corpus), newRank = [], condition = c\<rparr> =
         Inr \<lparr>rank = map (\<lambda>i. (i, \<rho> i)) (keys corpus),
              newRank = map (\<lambda>i. (i, new_rank corpus d \<rho> i)) (keys corpus),
              condition = c\<rparr>"
proof -
  let ?r = "map (\<lambda>i. (i, \<rho> i)) (keys corpus)"
  have "new_rank corpus d (snapshot ?r) i = new_rank corpus d \<rho> i" for i
    by (rule new_rank_cong) (simp add: snapshot_map_pair)
  then show ?thesis
    using dk by (simp add: update_pass_eq keys_map_pair fold_setitem_fresh keys_def [of "[]"])
qed

lemma iterate_pagerank_eq:
  assumes dk: "distinct (keys corpus)"
  shows "iterate_pagerank corpus d =
         Inr (map (\<lambda>i. (i, new_rank corpus d (\<lambda>_. 1 / real (length corpus)) i)) (keys corpus))"
proof -
  let ?r0 = "map (\<lambda>i. (i, 1 / real (length corpus))) (keys corpus)"
  let ?n = "map (\<lambda>i. (i, new_rank corpus d (\<lambda>_. 1 / real (length corpus)) i)) (keys corpus)"
  let ?s = "\<lparr>rank = ?r0, newRank = ?n, condition = False\<rparr>"
  have w: "while_loop corpus d \<lparr>rank = ?r0, newRank = [], condition = True\<rparr> = Inr ?s"
    by (simp add: while_loop_once update_pass_dict [OF dk])
  have "\<exists>s'. for_each (keys (rank ?s)) check_step ?s = Inr s' \<and>
              rank s' = map (\<lambda>i. (i, snapshot (newRank ?s) i)) (keys (rank ?s))"
    by (rule check_loop_eq) (use dk in \<open>simp_all add: keys_map_pair\<close>)
  then obtain s' where s': "for_each (keys corpus) check_step ?s = Inr s'"
    "rank s' = map (\<lambda>i. (i, snapshot ?n i)) (keys corpus)"
    by (auto simp: keys_map_pair)
  have "map (\<lambda>i. (i, snapshot ?n i)) (keys corpus) = ?n"
    by (simp add: snapshot_map_pair)
  with s' show ?thesis
    by (simp add: iterate_pagerank_def and_then_def init_loop_eq [OF dk] w keys_map_pair)
qed

lemma new_rank_simultaneous: "new_rank corpus d \<rho> i = simultaneous_update corpus d \<rho> i"
proof -
  have "link_share corpus \<rho> i =
        (\<lambda>e. (if (case e of (j, links) \<Rightarrow> i |\<in>| links)
                then (case e of (j, links) \<Rightarrow> \<rho> j / real (fcard links)) else 0) +
              (if (case e of (j, links) \<Rightarrow> links = {||})
                then (case e of (j, links) \<Rightarrow> \<rho> j / real (length corpus)) else 0))"
    by (auto simp: link_share_def fun_eq_iff)
  then show ?thesis
    by (simp add: new_rank_def simultaneous_update_def sum_list_addf sum_list_map_filter'
        distrib_left)
qed

lemma count_links:
  assumes "distinct ks" and "fset links \<subseteq> set ks"
  shows "sum_list (map (\<lambda>i. if i |\<in>| links then x else 0) ks) = real (fcard links) * x"
proof -
  have "sum_list (map (\<lambda>i. if i |\<in>| links then x else 0) ks) =
        sum (\<lambda>i. if i \<in> fset links then x else 0) (set ks)"
    using assms(1) by (simp add: sum_list_distinct_conv_sum_set)
  also have "\<dots> = sum (\<lambda>i. x) (set ks \<inter> fset links)"
    by (rule sum.inter_restrict [symmetric]) simp
  also have "set ks \<inter> fset links = fset links" using assms(2) by auto
  finally show ?thesis by (simp add: fcard.rep_eq)
qed

lemma sum_list_swap:
  "sum_list (map (\<lambda>i. sum_list (map (f i) ys)) xs) =
   sum_list (map (\<lambda>j. sum_list (map (\<lambda>i. f i j) xs)) ys :: real list)"
  by (induction xs) (simp_all add: sum_list_addf)

lemma sum_next_prob:
  assumes dk: "distinct ks" and sub: "fset links \<subseteq> set ks" and ne: "ks \<noteq> []"
  shows "sum_list (map (next_prob (length ks) links d) ks) = 1"
proof (cases "links = {||}")
  case True
  have "next_prob (length ks) {||} d = (\<lambda>i. 1 / real (length ks))"
    by (simp add: next_prob_def fun_eq_iff)
  with True ne show ?thesis by (simp add: sum_list_triv)
next
  case False
  have "next_prob (length ks) links d =
        (\<lambda>i. (1 - d) / real (length ks) + (if i |\<in>| links then d / real (fcard links) else 0))"
    using False by (auto simp: next_prob_def fun_eq_iff)
  then have "sum_list (map (next_prob (length ks) links d) ks) =
        real (length ks) * ((1 - d) / real (length ks)) + real (fcard links) * (d / real (fcard links))"
    by (simp add: sum_list_addf sum_list_triv count_links [OF dk sub])
  with False ne show ?thesis by simp
qed

lemma share_total:
  assumes dk: "distinct (keys corpus)" and sub: "fset links \<subseteq> set (keys corpus)"
    and ne: "corpus \<noteq> []"
  shows "sum_list (map (\<lambda>i. link_share corpus \<rho> i (j, links)) (keys corpus)) = \<rho> j"
proof (cases "links = {||}")
  case True
  have "length (keys corpus) = length corpus" by (simp add: keys_def)
  with True ne show ?thesis by (simp add: link_share_def sum_list_triv)
next
  case False
  then show ?thesis
    by (simp add: link_share_def count_links [OF dk sub])
qed

lemma sum_new_rank:
  assumes ok: "graph_ok corpus" and ne: "corpus \<noteq> []"
  shows "sum_list (map (new_rank corpus d \<rho>) (keys corpus)) =
         (1 - d) + d * sum_list (map \<rho> (keys corpus))"
proof -
  from ok have dk: "distinct (keys corpus)" by (simp add: graph_ok_def)
  have len: "length (keys corpus) = length corpus" by (simp add: keys_def)
  have "sum_list (map (\<lambda>i. link_share corpus \<rho> i e) (keys corpus)) = \<rho> (fst e)"
    if "e \<in> set corpus" for e
  proof -
    obtain j links where e: "e = (j, links)" by (cases e)
    with that ok have "fset links \<subseteq> set (keys corpus)"
      by (auto simp: graph_ok_def list_all_iff less_eq_fset.rep_eq fset_of_list.rep_eq)
    with e show ?thesis by (simp add: share_total [OF dk _ ne])
  qed
  then have "map (\<lambda>e. sum_list (map (\<lambda>i. link_share corpus \<rho> i e) (keys corpus))) corpus =
             map \<rho> (keys corpus)"
    by (simp add: keys_def)
  then have sw: "sum_list (map (\<lambda>i. sum_list (map (link_share corpus \<rho> i) corpus)) (keys corpus)) =
        sum_list (map \<rho> (keys corpus))"
    by (simp add: sum_list_swap [of "link_share corpus \<rho>"])
  have "sum_list (map (new_rank corpus d \<rho>) (keys corpus)) =
        real (length corpus) * ((1 - d) / real (length corpus)) +
        d * sum_list (map (\<lambda>i. sum_list (map (link_share corpus \<rho> i) corpus)) (keys corpus))"
    unfolding new_rank_def by (simp add: sum_list_addf sum_list_triv sum_list_const_mult len)
  with sw ne show ?thesis by simp
qed

lemma zero_loop: "\<exists>r. for_each ks zero_step r0 = Inr r"
  by (induction ks arbitrary: r0) (simp_all add: zero_step_def)

subsection \<open>The corpus built by crawl\<close>

lemma distinct_keys_setitem: "distinct (keys d) \<Longrightarrow> distinct (keys (setitem d k v))"
  by (simp add: keys_def setitem_def distinct_update)

lemma set_setitem: "distinct (keys d) \<Longrightarrow> (a, b) \<in> set (setitem d k v) \<longleftrightarrow> (if a = k then b = v else (a, b) \<in> set d)"
proof -
  assume d: "distinct (keys d)"
  then have d': "distinct (keys (setitem d k v))" by (rule distinct_keys_setitem)
  have "(a, b) \<in> set (setitem d k v) \<longleftrightarrow> map_of (setitem d k v) a = Some b"
    using d' by (simp add: keys_def)
  also have "\<dots> \<longleftrightarrow> (if a = k then b = v else map_of d a = Some b)"
    by (auto simp: setitem_def update_conv')
  also have "\<dots> \<longleftrightarrow> (if a = k then b = v else (a, b) \<in> set d)"
    using d by (simp add: keys_def)
  finally show ?thesis .
qed

lemma parse_loop:
  assumes "distinct (keys pages)" "no_self_links pages"
  shows "\<exists>pages'. for_each found parse_step pages = Inr pages' \<and> distinct (keys pages') \<and> no_self_links pages'"
  using assms
proof (induction found arbitrary: pages)
  case Nil
  then show ?case by simp
next
  case (Cons f found)
  obtain filename links where f: "f = (filename, links)" by (cases f)
  let ?p = "setitem pages filename (fset_of_list links |-| {|filename|})"
  have 1: "distinct (keys ?p)" using Cons.prems(1) by (rule distinct_keys_setitem)
  have 2: "no_self_links ?p"
    using Cons.prems by (auto simp: no_self_links_def list_all_iff set_setitem split: if_splits)
  from Cons.IH [OF 1 2] show ?case by (simp add: f parse_step_def)
qed

lemma filter_loop:
  assumes "distinct (keys pages)" "no_self_links pages" "set ks \<subseteq> set (keys pages)"
    "links_in done (keys pages) pages"
  shows "\<exists>pages'. for_each ks filter_step pages = Inr pages' \<and> keys pages' = keys pages \<and>
           no_self_links pages' \<and> links_in (done @ ks) (keys pages) pages'"
  using assms
proof (induction ks arbitrary: pages "done")
  case Nil
  then show ?case by simp
next
  case (Cons k ks)
  from Cons.prems(3) have kk: "k \<in> set (keys pages)" by simp
  then obtain links where l: "map_of pages k = Some links"
    by (auto simp: keys_def dest: weak_map_of_SomeI)
  then have mem: "(k, links) \<in> set pages" by (rule map_of_SomeD)
  let ?v = "ffilter (\<lambda>link. link \<in> set (keys pages)) links"
  let ?p = "setitem pages k ?v"
  have step: "filter_step k pages = Inr ?p"
    by (simp add: filter_step_def and_then_def getitem_def l)
  have ks: "keys ?p = keys pages" using kk by (rule keys_setitem_present)
  have 1: "distinct (keys ?p)" using Cons.prems(1) ks by simp
  have 2: "no_self_links ?p"
    using Cons.prems(1,2) mem
    by (auto simp: no_self_links_def list_all_iff set_setitem split: if_splits)
  have 3: "set ks \<subseteq> set (keys ?p)" using Cons.prems(3) ks by simp
  have 4: "links_in (done @ [k]) (keys ?p) ?p"
    using Cons.prems(1,4) unfolding ks
    by (auto simp: links_in_def list_all_iff set_setitem fset_of_list.rep_eq split: if_splits)
  from Cons.IH [OF 1 2 3 4] ks step show ?case by auto
qed

lemma crawl_graph_ok:
  "\<exists>corpus. crawl found = Inr corpus \<and> graph_ok corpus \<and> no_self_links corpus"
proof -
  have "distinct (keys ([] :: corpus))" "no_self_links []"
    by (simp_all add: keys_def no_self_links_def)
  then obtain pages where p: "for_each found parse_step [] = Inr pages"
    "distinct (keys pages)" "no_self_links pages"
    using parse_loop by blast
  have "links_in [] (keys pages) pages" by (simp add: links_in_def list_all_iff)
  with p obtain corpus where c: "for_each (keys pages) filter_step pages = Inr corpus"
    "keys corpus = keys pages" "no_self_links corpus" "links_in ([] @ keys pages) (keys pages) corpus"
    using filter_loop [of pages "keys pages" "[]"] by auto
  have "links |\<subseteq>| fset_of_list (keys corpus)"
    if "(p, links) \<in> set corpus" for p links
  proof -
    from that have "p \<in> set (keys corpus)" unfolding keys_def by force
    with that c(2,4) show ?thesis
      by (auto simp: links_in_def list_all_iff)
  qed
  then have "graph_ok corpus"
    using c(2) p(2) by (auto simp: graph_ok_def list_all_iff)
  with p c show ?thesis by (auto simp: crawl_def and_then_def)
qed

section \<open>The claims\<close>

subsection \<open>transition\_model\<close>

text \<open>
  C3. For a corpus (a dictionary, so with distinct keys) and a page that is one of its
  keys, with link set \<open>links\<close>: when the page has at least one link, \<^verbatim>\<open>transition_model\<close>
  returns the dictionary over the corpus pages, in the order of the corpus, that gives
  page \<open>p\<close> the probability \<open>(1-d)/N\<close>, plus \<open>d / len(links)\<close> when \<open>p\<close> is among the links;
  when the page has no links it gives every page \<open>1/N\<close>. \<open>N\<close> is the number of pages.
\<close>

theorem transition_model_probabilities:
  assumes "distinct (keys corpus)" and "(page, links) \<in> set corpus"
  shows "transition_model corpus page d =
         Inr (map (\<lambda>p. (p, if links \<noteq> {||}
                             then (1 - d) / real (length corpus) +
                                  (if p |\<in>| links then d / real (fcard links) else 0)
                             else 1 / real (length corpus)))
                (keys corpus))"
proof -
  from assms have "map_of corpus page = Some links" by (simp add: keys_def)
  with assms(1) have "transition_model corpus page d =
      Inr (map (\<lambda>i. (i, next_prob (length corpus) links d i)) (keys corpus))"
    by (rule transition_model_eq)
  moreover have "next_prob (length corpus) links d =
      (\<lambda>p. if links \<noteq> {||}
            then (1 - d) / real (length corpus) +
                 (if p |\<in>| links then d / real (fcard links) else 0)
            else 1 / real (length corpus))"
    by (auto simp: next_prob_def fun_eq_iff)
  ultimately show ?thesis by simp
qed

text \<open>
  The theorem at the pair \<open>A -> B\<close>, \<open>B\<close> without links, damping 0.85: from \<open>A\<close> the
  distribution is 0.075 and 0.925, from the dangling \<open>B\<close> it is 0.5 and 0.5.
\<close>

theorem transition_model_probabilities_witness:
  "distinct (keys dangling_pair) \<and> (''A'', {|''B''|}) \<in> set dangling_pair \<and>
   transition_model dangling_pair ''A'' (85 / 100) = Inr [(''A'', 3 / 40), (''B'', 37 / 40)] \<and>
   (''B'', {||}) \<in> set dangling_pair \<and>
   transition_model dangling_pair ''B'' (85 / 100) = Inr [(''A'', 1 / 2), (''B'', 1 / 2)]"
  using transition_model_probabilities [of dangling_pair "''A''" "{|''B''|}" "85 / 100"]
    transition_model_probabilities [of dangling_pair "''B''" "{||}" "85 / 100"]
  by (simp add: dangling_pair_def keys_def fcard_finsert_if fcard_fempty)

text \<open>
  C5. For a graph as \<^verbatim>\<open>crawl\<close> builds it (\<open>graph_ok\<close>: distinct keys, every link a key)
  and a page that is one of its keys, the values of the distribution returned by
  \<^verbatim>\<open>transition_model\<close> sum to 1, for a page with links and for a dangling page alike,
  and for every damping factor. The sum is exact in the real numbers.
\<close>

theorem transition_model_sums_to_one:
  assumes "graph_ok corpus" and "(page, links) \<in> set corpus"
  shows "\<exists>dist'. transition_model corpus page d = Inr dist' \<and> sum_list (map snd dist') = 1"
proof -
  from assms have dk: "distinct (keys corpus)" by (simp add: graph_ok_def)
  with assms have m: "map_of corpus page = Some links" by (simp add: keys_def)
  have sub: "fset links \<subseteq> set (keys corpus)"
    using assms by (auto simp: graph_ok_def list_all_iff less_eq_fset.rep_eq fset_of_list.rep_eq)
  have ne: "keys corpus \<noteq> []" using assms(2) by (auto simp: keys_def)
  have "sum_list (map (next_prob (length (keys corpus)) links d) (keys corpus)) = 1"
    by (rule sum_next_prob [OF dk sub ne])
  then show ?thesis
    by (simp add: transition_model_eq [OF dk m] comp_def keys_def)
qed

theorem transition_model_sums_to_one_witness:
  "graph_ok dangling_pair \<and> (''A'', {|''B''|}) \<in> set dangling_pair \<and>
   (\<exists>dist'. transition_model dangling_pair ''A'' (85 / 100) = Inr dist' \<and>
      sum_list (map snd dist') = 1)"
  using transition_model_sums_to_one [of dangling_pair "''A''" "{|''B''|}" "85 / 100"]
  by (simp add: dangling_pair_def graph_ok_def keys_def)

text \<open>
  C8. A call of \<^verbatim>\<open>transition_model\<close> with a current page that is no key of the graph
  fails: the lookup \<^verbatim>\<open>corpus[page]\<close> of line 64 raises \<^verbatim>\<open>KeyError\<close>, which nothing
  catches, and no distribution is returned.
\<close>

theorem transition_model_missing_page:
  assumes "page \<notin> set (keys corpus)"
  shows "transition_model corpus page d = Inl KeyError"
  using assms by (rule transition_model_KeyError)

theorem transition_model_missing_page_witness:
  "''C'' \<notin> set (keys dangling_pair) \<and>
   transition_model dangling_pair ''C'' (85 / 100) = Inl KeyError"
  using transition_model_missing_page [of "''C''" dangling_pair "85 / 100"]
  by (simp add: dangling_pair_def keys_def)

text \<open>
  C10. For a page that is a key of the graph and a damping factor strictly between 0 and
  1, the distribution returned by \<^verbatim>\<open>transition_model\<close> has the keys of the graph as its
  keys and gives every page a strictly positive probability.
\<close>

theorem transition_model_positive:
  assumes "distinct (keys corpus)" and "(page, links) \<in> set corpus" and "0 < d" and "d < 1"
  shows "\<exists>dist'. transition_model corpus page d = Inr dist' \<and> keys dist' = keys corpus \<and>
           list_all (\<lambda>(p, x). 0 < x) dist'"
proof -
  from assms have m: "map_of corpus page = Some links" by (simp add: keys_def)
  have n: "0 < length corpus" using assms(2) by (cases corpus) auto
  have "0 < next_prob (length corpus) links d i" for i
    using n assms(3,4) by (auto simp: next_prob_def intro!: add_pos_pos divide_pos_pos)
  then show ?thesis
    by (simp add: transition_model_eq [OF assms(1) m] keys_map_pair list_all_iff)
qed

theorem transition_model_positive_witness:
  "distinct (keys dangling_pair) \<and> (''A'', {|''B''|}) \<in> set dangling_pair \<and>
   (0::real) < 85 / 100 \<and> (85 / 100 :: real) < 1 \<and>
   (\<exists>dist'. transition_model dangling_pair ''A'' (85 / 100) = Inr dist' \<and>
      keys dist' = keys dangling_pair \<and> list_all (\<lambda>(p, x). 0 < x) dist')"
  using transition_model_positive [of dangling_pair "''A''" "{|''B''|}" "85 / 100"]
  by (simp add: dangling_pair_def keys_def)

subsection \<open>iterate\_pagerank\<close>

text \<open>
  C4. An update pass (lines 130-139) run on any state whose \<^verbatim>\<open>rank\<close> has the pages of the
  corpus as keys ends without an error, leaves \<^verbatim>\<open>rank\<close> as it was, and leaves in
  \<^verbatim>\<open>newRank\<close>, for every page, the value that the simultaneous update rule of the
  specification computes from the ranks held at the start of the pass: no value written
  during the pass is read by it.
\<close>

theorem update_pass_reads_snapshot:
  assumes "distinct (keys corpus)" and "set (keys (rank s)) = set (keys corpus)"
  shows "\<exists>s'. update_pass corpus d s = Inr s' \<and> rank s' = rank s \<and>
           (\<forall>i \<in> set (keys (rank s)).
              getitem (newRank s') i = Inr (simultaneous_update corpus d (snapshot (rank s)) i))"
proof -
  let ?F = "\<lambda>i. new_rank corpus d (snapshot (rank s)) i"
  let ?s' = "s\<lparr>newRank := fold (\<lambda>i r. setitem r i (?F i)) (keys (rank s)) (newRank s)\<rparr>"
  have "update_pass corpus d s = Inr ?s'"
    using assms by (simp add: update_pass_eq)
  moreover have "rank ?s' = rank s" by simp
  moreover have "getitem (newRank ?s') i = Inr (simultaneous_update corpus d (snapshot (rank s)) i)"
    if "i \<in> set (keys (rank s))" for i
    using that by (simp add: getitem_Inr_iff map_of_fold_setitem new_rank_simultaneous)
  ultimately show ?thesis by blast
qed

theorem update_pass_reads_snapshot_witness:
  "distinct (keys dangling_pair) \<and>
   set (keys (rank \<lparr>rank = [(''A'', 1 / 2), (''B'', 1 / 2)], newRank = [], condition = True\<rparr>)) =
     set (keys dangling_pair) \<and>
   (\<exists>s'. update_pass dangling_pair (85 / 100)
           \<lparr>rank = [(''A'', 1 / 2), (''B'', 1 / 2)], newRank = [], condition = True\<rparr> = Inr s' \<and>
         rank s' = [(''A'', 1 / 2), (''B'', 1 / 2)] \<and>
         getitem (newRank s') ''A'' =
           Inr (simultaneous_update dangling_pair (85 / 100)
                  (snapshot [(''A'', 1 / 2), (''B'', 1 / 2)]) ''A''))"
  using update_pass_reads_snapshot [of dangling_pair
      "\<lparr>rank = [(''A'', 1 / 2), (''B'', 1 / 2)], newRank = [], condition = True\<rparr>" "85 / 100"]
  by (auto simp: dangling_pair_def keys_def)

text \<open>
  C6. For a non-empty graph as \<^verbatim>\<open>crawl\<close> builds it and any damping factor,
  \<^verbatim>\<open>iterate_pagerank\<close> returns a mapping over the pages of the graph whose values sum to
  1 (exactly, in the real numbers, hence within \<open>1e-6\<close>), dangling pages included: the
  rank of a dangling page is spread over all pages and no mass is lost.
\<close>

theorem iterate_pagerank_sums_to_one:
  assumes "graph_ok corpus" and "corpus \<noteq> []"
  shows "\<exists>r. iterate_pagerank corpus d = Inr r \<and> keys r = keys corpus \<and>
             sum_list (map snd r) = 1 \<and> \<bar>sum_list (map snd r) - 1\<bar> \<le> 1 / 10 ^ 6"
proof -
  from assms have dk: "distinct (keys corpus)" by (simp add: graph_ok_def)
  let ?\<rho> = "\<lambda>_::page. 1 / real (length corpus)"
  have "sum_list (map ?\<rho> (keys corpus)) = real (length (keys corpus)) * (1 / real (length corpus))"
    by (simp add: sum_list_triv)
  moreover have "length (keys corpus) = length corpus" by (simp add: keys_def)
  ultimately have "sum_list (map ?\<rho> (keys corpus)) = 1"
    using assms(2) by simp
  then have "sum_list (map (new_rank corpus d ?\<rho>) (keys corpus)) = 1"
    by (simp add: sum_new_rank [OF assms])
  then show ?thesis
    by (simp add: iterate_pagerank_eq [OF dk] keys_map_pair comp_def)
qed

theorem iterate_pagerank_sums_to_one_witness:
  "graph_ok dangling_pair \<and> dangling_pair \<noteq> [] \<and>
   (\<exists>r. iterate_pagerank dangling_pair (85 / 100) = Inr r \<and> keys r = keys dangling_pair \<and>
        sum_list (map snd r) = 1 \<and> \<bar>sum_list (map snd r) - 1\<bar> \<le> 1 / 10 ^ 6)"
  using iterate_pagerank_sums_to_one [of dangling_pair "85 / 100"]
  by (simp add: dangling_pair_def graph_ok_def keys_def)

text \<open>
  C9. On the two-page graph \<open>A -> B\<close>, \<open>B -> A\<close> with damping factor 0.85,
  \<^verbatim>\<open>iterate_pagerank\<close> returns the rank 0.5 for each page.
\<close>

theorem iterate_pagerank_two_pages:
  "iterate_pagerank two_pages (85 / 100) = Inr [(''A'', 1 / 2), (''B'', 1 / 2)]"
  by (simp add: two_pages_def iterate_pagerank_def keys_def init_step_def and_then_def py_div_def
      setitem_def while_loop_once update_pass_def page_step_def link_step_def getitem_def
      check_step_def isclose_def fcard_finsert_if fcard_fempty)

text \<open>
  C1, at the graph \<open>A -> B\<close>, \<open>B\<close> without links, damping 0.85. The comparison of lines
  143-147 stands after the \<^verbatim>\<open>while\<close> loop, whose body ends with \<^verbatim>\<open>condition = False\<close>:
  the function returns after one update pass, with \<open>A\<close> at 0.2875. One more update pass
  on the returned mapping moves \<open>A\<close> to 0.3778125, a change that \<^verbatim>\<open>math.isclose\<close> with
  \<^verbatim>\<open>abs_tol=0.001\<close> rejects.
\<close>

theorem iterate_pagerank_stops_early:
  "iterate_pagerank dangling_pair (85 / 100) = Inr [(''A'', 23 / 80), (''B'', 57 / 80)] \<and>
   update_pass dangling_pair (85 / 100)
     \<lparr>rank = [(''A'', 23 / 80), (''B'', 57 / 80)], newRank = [], condition = True\<rparr> =
   Inr \<lparr>rank = [(''A'', 23 / 80), (''B'', 57 / 80)],
        newRank = [(''A'', 1209 / 3200), (''B'', 1991 / 3200)], condition = True\<rparr> \<and>
   \<not> isclose (1209 / 3200) (23 / 80)"
  by (simp add: dangling_pair_def iterate_pagerank_def keys_def init_step_def and_then_def py_div_def
      setitem_def while_loop_once update_pass_def page_step_def link_step_def getitem_def
      check_step_def isclose_def fcard_finsert_if fcard_fempty)

subsection \<open>Argument checks\<close>

text \<open>
  C7 as stated fails: \<^verbatim>\<open>iterate_pagerank\<close> returns the empty mapping on the empty graph,
  and returns a mapping for the damping factor 2.
\<close>

theorem iterate_pagerank_no_validation_counterexample:
  "iterate_pagerank [] (85 / 100) = Inr [] \<and>
   iterate_pagerank two_pages 2 = Inr [(''A'', 1 / 2), (''B'', 1 / 2)]"
  by (simp add: two_pages_def iterate_pagerank_def keys_def init_step_def and_then_def py_div_def
      setitem_def while_loop_once update_pass_def page_step_def link_step_def getitem_def
      check_step_def isclose_def fcard_finsert_if fcard_fempty)

text \<open>
  C7, amended. \<^verbatim>\<open>iterate_pagerank\<close> checks none of its arguments and raises nothing: for
  every corpus, the empty one included, and every damping factor, in \<open>(0,1)\<close> or not, it
  returns a mapping whose keys are the keys of the corpus. Every division by the number
  of pages stands inside a loop over the pages, so none is by zero.
\<close>

theorem iterate_pagerank_total:
  assumes "distinct (keys corpus)"
  shows "\<exists>r. iterate_pagerank corpus d = Inr r \<and> keys r = keys corpus"
  by (simp add: iterate_pagerank_eq [OF assms] keys_map_pair)

theorem iterate_pagerank_total_witness:
  "distinct (keys two_pages) \<and>
   (\<exists>r. iterate_pagerank two_pages 2 = Inr r \<and> keys r = keys two_pages)"
  using iterate_pagerank_total [of two_pages 2]
  by (simp add: two_pages_def keys_def)

subsection \<open>sample\_pagerank\<close>

text \<open>
  C2 fails on the code: for every sample count \<open>n \<ge> 1\<close>, every corpus, damping factor and
  generator, \<^verbatim>\<open>sample_pagerank\<close> raises \<^verbatim>\<open>TypeError\<close> in the first round of its loop,
  where line 97 passes the keyword \<^verbatim>\<open>k\<close> to \<^verbatim>\<open>random.choice\<close>. It returns no mapping.
\<close>

theorem sample_pagerank_raises:
  assumes "1 \<le> n"
  shows "sample_pagerank g corpus d n = Inl TypeError"
proof -
  obtain r where r: "for_each (keys corpus) zero_step [] = Inr r"
    using zero_loop by blast
  from assms obtain m where m: "nat n = Suc m" by (cases "nat n") auto
  have "[0 ..< nat n] = 0 # [1 ..< nat n]" using m by (simp add: upt_conv_Cons)
  moreover have "sample_step corpus d 0 \<lparr>visits = r, temp = None, gen = g\<rparr> = Inl TypeError"
    by (simp add: sample_step_def choose_page_def random_choice_def and_then_def)
  ultimately show ?thesis
    by (simp add: sample_pagerank_def r and_then_def)
qed

theorem sample_pagerank_raises_witness:
  "(1::int) \<le> 10000 \<and> sample_pagerank fixed_gen two_pages (85 / 100) 10000 = Inl TypeError"
  using sample_pagerank_raises [of 10000 fixed_gen two_pages "85 / 100"] by simp

end
